theory Spec2Isabelle
  imports Main "HOL-Library.Word" "HOL-Library.Monad_Syntax"
begin

unbundle bit_operations_syntax

section \<open>Machine types\<close>

text \<open>
  The monitor's integers are Go's fixed-width types. Bytes of a datagram are \<open>8 word\<close>,
  the big-endian header fields \<open>16 word\<close>, the callsign accumulator \<open>64 word\<close>
  (arithmetic wraps modulo \<open>2 ^ 64\<close>, as Go's \<open>uint64\<close> does). PCM samples are
  Go's \<open>int16\<close>: the same 16 bits, read as two's complement by \<open>sint\<close>.
\<close>

type_synonym byte = "8 word"
type_synonym uint16 = "16 word"
type_synonym int16 = "16 word"
type_synonym uint64 = "64 word"

section \<open>Callsign decoding\<close>

text \<open>
  \<open>decodeCallsign\<close>: the first loop folds the bytes into the address, most significant
  byte first (\<open>accumulate\<close>); the second loop (\<open>decode_loop\<close>) appends
  \<open>base40Chars[address % 40]\<close> and divides the address by 40 while it is positive. The
  index is below 40, the length of the alphabet, so the indexing is always in range.
\<close>

definition base40Chars :: string where
  "base40Chars = '' ABCDEFGHIJKLMNOPQRSTUVWXYZ0123456789-/.''"

fun accumulate :: "uint64 \<Rightarrow> byte list \<Rightarrow> uint64" where
  "accumulate address [] = address"
| "accumulate address (b # encoded) = accumulate (address * 256 + ucast b) encoded"

function decode_loop :: "uint64 \<Rightarrow> string \<Rightarrow> string" where
  "decode_loop address callsign =
     (if address > 0
      then decode_loop (address div 40) (callsign @ [base40Chars ! unat (address mod 40)])
      else callsign)"
  by pat_completeness auto
termination
proof (relation "measure (\<lambda>(address, callsign). unat address)")
  show "wf (measure (\<lambda>(address :: uint64, callsign :: string). unat address))"
    by simp
next
  fix address :: uint64 and callsign :: string
  assume "0 < address"
  then have "unat address \<noteq> 0"
    by (simp add: unat_eq_zero word_greater_zero_iff)
  then have "unat address div 40 < unat address"
    by simp
  then show "((address div 40, callsign @ [base40Chars ! unat (address mod 40)]), (address, callsign))
      \<in> measure (\<lambda>(address, callsign). unat address)"
    by (simp add: unat_div)
qed

definition decodeCallsign :: "byte list \<Rightarrow> string" where
  "decodeCallsign encoded = decode_loop (accumulate 0 encoded) ''''"

section \<open>Go slices and byte order\<close>

text \<open>
  A Go slice expression \<open>s[i:j]\<close> panics unless \<open>i \<le> j \<le> cap(s)\<close>; the model
  returns \<open>None\<close> for the panic and bounds \<open>j\<close> by the length. \<open>Uint16\<close> is
  \<open>binary.BigEndian.Uint16\<close> and \<open>PutUint16\<close> is \<open>binary.LittleEndian.PutUint16\<close>;
  both panic (\<open>None\<close>) on a slice shorter than two bytes.
\<close>

definition go_slice :: "'a list \<Rightarrow> nat \<Rightarrow> nat \<Rightarrow> 'a list option" where
  "go_slice s i j = (if i \<le> j \<and> j \<le> length s then Some (take (j - i) (drop i s)) else None)"

fun Uint16 :: "byte list \<Rightarrow> uint16 option" where
  "Uint16 (b0 # b1 # bs) = Some (ucast b1 OR push_bit 8 (ucast b0))"
| "Uint16 bs = None"

fun PutUint16 :: "byte list \<Rightarrow> uint16 \<Rightarrow> byte list option" where
  "PutUint16 (b0 # b1 # bs) v = Some (ucast v # ucast (drop_bit 8 v) # bs)"
| "PutUint16 bs v = None"

section \<open>The codec binding\<close>

text \<open>
  The codec engine is the C library behind the cgo binding; it is not part of the
  repository, so its three entry points are parameters (\<open>extern\<close>), together with the
  \<open>Write\<close> of the audio player. The library keeps decoder state behind the handle, so
  \<open>codec2_decode\<close> returns the new handle state as well as the samples it writes: a
  function from the index in the output buffer to the sample stored there. \<open>player_Write\<close>
  returns the error of the write, if any.
\<close>

record 'h Codec2 =
  handle :: 'h
  mode :: int

record 'h extern =
  codec2_samples_per_frame :: "'h \<Rightarrow> int"
  codec2_bits_per_frame :: "'h \<Rightarrow> int"
  codec2_decode :: "'h \<Rightarrow> byte list \<Rightarrow> (nat \<Rightarrow> int16) \<times> 'h"
  player_Write :: "byte list \<Rightarrow> string option"

text \<open>
  \<open>Codec2.Decode\<close> returns the error "invalid bit length" when the input length differs
  from \<open>nbit / 8\<close> (Go's division truncates towards zero: \<open>quo\<close>). Otherwise it
  allocates \<open>nsam\<close> samples and passes the addresses of \<open>audio[0]\<close> and
  \<open>bits[0]\<close> to the library: \<open>make\<close> panics on a negative length and the two index
  expressions panic on an empty slice. A panic is the result \<open>Panic\<close>.
\<close>

datatype decoded = Panic | Err string | Ok "int16 list"

definition quo :: "int \<Rightarrow> int \<Rightarrow> int" where
  "quo a b = sgn a * sgn b * (\<bar>a\<bar> div \<bar>b\<bar>)"

definition Decode :: "'h extern \<Rightarrow> 'h Codec2 \<Rightarrow> byte list \<Rightarrow> decoded \<times> 'h Codec2" where
  "Decode X c bits =
     (let nsam = codec2_samples_per_frame X (handle c);
          nbit = codec2_bits_per_frame X (handle c)
      in if int (length bits) \<noteq> quo nbit 8 then (Err ''invalid bit length'', c)
         else if nsam < 0 then (Panic, c)
         else if nsam = 0 then (Panic, c)
         else if bits = [] then (Panic, c)
         else (case codec2_decode X (handle c) bits of
                 (speech, h) \<Rightarrow> (Ok (map speech [0..<nat nsam]), c\<lparr>handle := h\<rparr>)))"

section \<open>The client\<close>

text \<open>
  The client. \<open>log_line\<close> has one constructor for each \<open>log.Printf\<close> call of the
  program, carrying the values it prints; lines are written only when the global
  \<open>debug\<close> flag is set (\<open>log_Printf\<close>). The state of a \<open>Client\<close> is its codec, the
  buffers submitted to the audio player so far and the log lines written so far.
  \<open>exit\<close> names the statement through which a handler leaves: one value for each
  \<open>return\<close> of \<open>handlePacket\<close> and \<open>handleM17\<close>, \<open>Played\<close> for the call of
  \<open>playAudio\<close> at the end, \<open>CodecPanicked\<close> for a panic inside \<open>Codec2.Decode\<close>
  and \<open>Panicked\<close> for a panic of a slice or index expression of the handlers themselves.
\<close>

datatype log_line =
    ReceivedPacketFrom string
  | InvalidM17Length nat
  | ReceivedM17 uint16 uint16 string string uint16 "byte list"
  | TypeBreakdown uint16 uint16 uint16 uint16 uint16
  | IgnoringModeOrEncrypted uint16
  | IgnoringNonVoice uint16
  | InvalidPayloadLength nat
  | FailedFirstVoiceFrame string
  | FailedSecondVoiceFrame string
  | FailedToPlay string

record 'h Client =
  codec2 :: "'h Codec2"
  player :: "byte list list"
  log_output :: "log_line list"

datatype exit =
    DroppedShort
  | DroppedMagic
  | RejectedLength
  | RejectedModeOrEncrypted
  | RejectedNonVoice
  | RejectedPayloadLength
  | FirstDecodeFailed
  | SecondDecodeFailed
  | Played
  | CodecPanicked
  | Panicked

definition MagicM17 :: "byte list" where
  "MagicM17 = [0x4D, 0x31, 0x37, 0x20]"

definition log_Printf :: "bool \<Rightarrow> log_line \<Rightarrow> 'h Client \<Rightarrow> 'h Client" where
  "log_Printf debug l c = (if debug then c\<lparr>log_output := log_output c @ [l]\<rparr> else c)"

text \<open>
  The local variables that \<open>handleM17\<close> extracts from a datagram of at least 54 bytes:
  the fixed-offset header fields, the two callsigns, and the bit fields of the type word.
  \<open>parse_fields\<close> is the block of assignments at the head of \<open>handleM17\<close>; each slice
  expression and each \<open>Uint16\<close> may panic, which is \<open>None\<close>. The source's variable
  \<open>typ\<close> is the field \<open>typ_field\<close>.
\<close>

record fields =
  streamID :: uint16
  lich :: "byte list"
  frameNumber :: uint16
  payload :: "byte list"
  dst :: string
  src :: string
  typ_field :: uint16
  meta :: "byte list"
  packetStreamIndicator :: uint16
  dataTypeIndicator :: uint16
  encryptionType :: uint16
  encryptionSubtype :: uint16
  channelAccessNumber :: uint16

definition parse_fields :: "byte list \<Rightarrow> fields option" where
  "parse_fields packet = do {
     b46 \<leftarrow> go_slice packet 4 6;
     streamID \<leftarrow> Uint16 b46;
     lich \<leftarrow> go_slice packet 6 34;
     b3436 \<leftarrow> go_slice packet 34 36;
     frameNumber \<leftarrow> Uint16 b3436;
     payload \<leftarrow> go_slice packet 36 52;
     l06 \<leftarrow> go_slice lich 0 6;
     l612 \<leftarrow> go_slice lich 6 12;
     l1214 \<leftarrow> go_slice lich 12 14;
     typ_field \<leftarrow> Uint16 l1214;
     meta \<leftarrow> go_slice lich 14 28;
     Some \<lparr> streamID = streamID, lich = lich, frameNumber = frameNumber, payload = payload,
            dst = decodeCallsign l06, src = decodeCallsign l612, typ_field = typ_field, meta = meta,
            packetStreamIndicator = typ_field AND 0x0001,
            dataTypeIndicator = drop_bit 1 typ_field AND 0x0003,
            encryptionType = drop_bit 3 typ_field AND 0x0003,
            encryptionSubtype = drop_bit 5 typ_field AND 0x0003,
            channelAccessNumber = drop_bit 7 typ_field AND 0x000F \<rparr>
   }"

text \<open>
  \<open>playAudio\<close> allocates \<open>len(audio) * 2\<close> zero bytes, stores sample \<open>i\<close> in
  little-endian order at \<open>buf[i*2:]\<close> (\<open>put_samples\<close> is the loop, writing through
  the sub-slice into the buffer it shares with) and submits the buffer to the player. A
  failed write is logged and otherwise ignored.
\<close>

fun put_samples :: "nat \<Rightarrow> int16 list \<Rightarrow> byte list \<Rightarrow> byte list option" where
  "put_samples i [] buf = Some buf"
| "put_samples i (sample # audio) buf =
     (case go_slice buf (i * 2) (length buf) of
        None \<Rightarrow> None
      | Some rest \<Rightarrow>
          (case PutUint16 rest sample of
             None \<Rightarrow> None
           | Some rest' \<Rightarrow> put_samples (Suc i) audio (take (i * 2) buf @ rest')))"

definition playAudio :: "bool \<Rightarrow> 'h extern \<Rightarrow> 'h Client \<Rightarrow> int16 list \<Rightarrow> exit \<times> 'h Client" where
  "playAudio debug X c audio =
     (case put_samples 0 audio (replicate (length audio * 2) 0) of
        None \<Rightarrow> (Panicked, c)
      | Some buf \<Rightarrow>
          (let c' = c\<lparr>player := player c @ [buf]\<rparr>
           in case player_Write X buf of
                Some err \<Rightarrow> (Played, log_Printf debug (FailedToPlay err) c')
              | None \<Rightarrow> (Played, c')))"

text \<open>
  \<open>handleM17\<close>, statement by statement: the length check, the field extraction, the debug
  lines, the mode and encryption filter, the voice filter, the re-validation of the payload
  length, the two calls of \<open>Decode\<close> on \<open>payload[:8]\<close> and \<open>payload[8:]\<close> (the
  second on the codec state the first one left), and \<open>playAudio\<close> on the two results
  appended.
\<close>

definition handleM17 :: "bool \<Rightarrow> 'h extern \<Rightarrow> 'h Client \<Rightarrow> byte list \<Rightarrow> exit \<times> 'h Client" where
  "handleM17 debug X c packet =
     (if length packet < 54 then (RejectedLength, log_Printf debug (InvalidM17Length (length packet)) c)
      else case parse_fields packet of
        None \<Rightarrow> (Panicked, c)
      | Some f \<Rightarrow>
         (let c1 = log_Printf debug
                     (TypeBreakdown (packetStreamIndicator f) (dataTypeIndicator f) (encryptionType f)
                        (encryptionSubtype f) (channelAccessNumber f))
                     (log_Printf debug
                        (ReceivedM17 (streamID f) (frameNumber f) (dst f) (src f) (typ_field f) (meta f)) c)
          in if packetStreamIndicator f = 0 \<or> encryptionType f \<noteq> 0
             then (RejectedModeOrEncrypted, log_Printf debug (IgnoringModeOrEncrypted (typ_field f)) c1)
             else if dataTypeIndicator f \<noteq> 2 \<and> dataTypeIndicator f \<noteq> 3
             then (RejectedNonVoice, log_Printf debug (IgnoringNonVoice (typ_field f)) c1)
             else if length (payload f) \<noteq> 16
             then (RejectedPayloadLength, log_Printf debug (InvalidPayloadLength (length (payload f))) c1)
             else (case go_slice (payload f) 0 8 of
                None \<Rightarrow> (Panicked, c1)
              | Some half1 \<Rightarrow>
                 (case Decode X (codec2 c1) half1 of
                    (Panic, k1) \<Rightarrow> (CodecPanicked, c1\<lparr>codec2 := k1\<rparr>)
                  | (Err err, k1) \<Rightarrow>
                      (FirstDecodeFailed, log_Printf debug (FailedFirstVoiceFrame err) (c1\<lparr>codec2 := k1\<rparr>))
                  | (Ok audio1, k1) \<Rightarrow>
                     (case go_slice (payload f) 8 (length (payload f)) of
                        None \<Rightarrow> (Panicked, c1\<lparr>codec2 := k1\<rparr>)
                      | Some half2 \<Rightarrow>
                         (case Decode X k1 half2 of
                            (Panic, k2) \<Rightarrow> (CodecPanicked, c1\<lparr>codec2 := k2\<rparr>)
                          | (Err err, k2) \<Rightarrow>
                              (SecondDecodeFailed,
                               log_Printf debug (FailedSecondVoiceFrame err) (c1\<lparr>codec2 := k2\<rparr>))
                          | (Ok audio2, k2) \<Rightarrow>
                              playAudio debug X (c1\<lparr>codec2 := k2\<rparr>) (audio1 @ audio2)))))))"

text \<open>
  \<open>handlePacket\<close> drops datagrams shorter than 4 bytes and routes those that start with
  the magic to \<open>handleM17\<close>. \<open>listen\<close> runs over the captured packets in order: it
  returns when the context is found cancelled, skips packets without a UDP layer, and stops
  when a handler panics.
\<close>

definition handlePacket :: "bool \<Rightarrow> 'h extern \<Rightarrow> 'h Client \<Rightarrow> byte list \<Rightarrow> exit \<times> 'h Client" where
  "handlePacket debug X c packet =
     (if length packet < 4 then (DroppedShort, c)
      else case go_slice packet 0 4 of
        None \<Rightarrow> (Panicked, c)
      | Some magic \<Rightarrow> if magic = MagicM17 then handleM17 debug X c packet else (DroppedMagic, c))"

record captured =
  cancelled :: bool
  network_src :: string
  udp_payload :: "byte list option"

fun listen :: "bool \<Rightarrow> 'h extern \<Rightarrow> 'h Client \<Rightarrow> captured list \<Rightarrow> 'h Client" where
  "listen debug X c [] = c"
| "listen debug X c (packet # packets) =
     (if cancelled packet then c
      else case udp_payload packet of
        None \<Rightarrow> listen debug X c packets
      | Some p \<Rightarrow>
         (case handlePacket debug X (log_Printf debug (ReceivedPacketFrom (network_src packet)) c) p of
            (Panicked, c') \<Rightarrow> c'
          | (CodecPanicked, c') \<Rightarrow> c'
          | (e, c') \<Rightarrow> listen debug X c' packets))"

section \<open>The callsign algorithm as the specification words it\<close>

text \<open>
  The reference algorithm on unbounded naturals: accumulate the bytes most-significant first
  (\<open>value = value * 256 + byte\<close>), then, while the value is positive, append the
  alphabet character at index \<open>value mod 40\<close> and divide the value by 40.
\<close>

fun reference_value :: "nat \<Rightarrow> byte list \<Rightarrow> nat" where
  "reference_value v [] = v"
| "reference_value v (b # bs) = reference_value (v * 256 + unat b) bs"

function reference_symbols :: "nat \<Rightarrow> string \<Rightarrow> string" where
  "reference_symbols v out =
     (if v > 0
      then reference_symbols (v div 40)
             (out @ ['' ABCDEFGHIJKLMNOPQRSTUVWXYZ0123456789-/.'' ! (v mod 40)])
      else out)"
  by pat_completeness auto
termination
  by (relation "measure fst") auto

definition reference_decode :: "byte list \<Rightarrow> string" where
  "reference_decode bs = reference_symbols (reference_value 0 bs) []"

section \<open>Fixtures\<close>

text \<open>
  A deterministic stub for the codec engine, two samples per frame, each the sum of the
  bytes of the sub-frame; a variant whose frame size changes after the first call, so that
  the second call of a frame is refused; an idle client; and two 54-byte-or-longer
  datagrams with the same payload.
\<close>

definition stub_codec :: "nat extern" where
  "stub_codec =
     \<lparr> codec2_samples_per_frame = (\<lambda>h. 2),
       codec2_bits_per_frame = (\<lambda>h. 64),
       codec2_decode = (\<lambda>h bits. (\<lambda>i. ucast (sum_list bits), Suc h)),
       player_Write = (\<lambda>buf. None) \<rparr>"

definition fading_codec :: "nat extern" where
  "fading_codec = stub_codec \<lparr> codec2_bits_per_frame := (\<lambda>h. if h = 0 then 64 else 32) \<rparr>"

definition client0 :: "nat Client" where
  "client0 = \<lparr> codec2 = \<lparr> handle = 0, mode = 0 \<rparr>, player = [], log_output = [] \<rparr>"

definition frame_of_type :: "byte \<Rightarrow> byte \<Rightarrow> byte list" where
  "frame_of_type t0 t1 =
     MagicM17 @ [0xAB, 0xCD] @ [0, 0, 0, 0, 0x12, 0x34] @ [0, 0, 0, 0, 0, 0x2A] @ [t0, t1]
       @ replicate 14 0 @ [0, 7] @ [1, 2, 3, 4, 5, 6, 7, 8, 1, 1, 1, 1, 1, 1, 1, 1] @ [0, 0]"

definition alt_frame :: "byte list" where
  "alt_frame =
     MagicM17 @ [0x01, 0x02] @ [9, 9, 9, 9, 9, 9] @ [1, 2, 3, 4, 5, 6] @ [0xFF, 0xE5]
       @ replicate 14 0x55 @ [0xFF, 0xFE] @ [1, 2, 3, 4, 5, 6, 7, 8, 1, 1, 1, 1, 1, 1, 1, 1] @ [0xEE, 0xEE, 0x77]"

section \<open>Callsign decoding: proofs\<close>

declare reference_symbols.simps [simp del] decode_loop.simps [simp del]

lemma accumulate_of_nat: "accumulate (of_nat v) bs = of_nat (reference_value v bs)"
proof (induction bs arbitrary: v)
  case Nil
  then show ?case by simp
next
  case (Cons b bs)
  have "(of_nat v :: uint64) * 256 + ucast b = of_nat (v * 256 + unat b)"
    by simp
  then show ?case
    using Cons.IH [of "v * 256 + unat b"] by simp
qed

lemma reference_value_bound: "reference_value v bs < (v + 1) * 256 ^ length bs"
proof (induction bs arbitrary: v)
  case Nil
  then show ?case by simp
next
  case (Cons b bs)
  have "unat b < 256"
    using unsigned_less [of b, where ?'a = nat] by simp
  then have "v * 256 + unat b + 1 \<le> (v + 1) * 256"
    by simp
  then have le: "(v * 256 + unat b + 1) * 256 ^ length bs \<le> (v + 1) * 256 * 256 ^ length bs"
    using mult_le_mono1 by blast
  have "reference_value v (b # bs) < (v * 256 + unat b + 1) * 256 ^ length bs"
    using Cons.IH [of "v * 256 + unat b"] by simp
  also note le
  also have "(v + 1) * 256 * 256 ^ length bs = (v + 1) * 256 ^ length (b # bs)"
    by (simp add: algebra_simps)
  finally show ?case .
qed

lemma decode_loop_of_nat:
  "v < 2 ^ 64 \<Longrightarrow> decode_loop (of_nat v) out = reference_symbols v out"
proof (induction v out rule: reference_symbols.induct)
  case (1 v out)
  have u: "unat (of_nat v :: uint64) = v"
    using "1.prems" by (simp add: unat_of_nat)
  show ?case
  proof (cases "v > 0")
    case True
    then have pos: "(0 :: uint64) < of_nat v"
      using u True by (simp add: word_greater_zero_iff flip: unat_gt_0)
    have d: "(of_nat v :: uint64) div 40 = of_nat (v div 40)"
      using u by (simp add: word_arith_nat_div)
    have m: "unat ((of_nat v :: uint64) mod 40) = v mod 40"
      using u by (simp add: unat_mod)
    have "v div 40 < 2 ^ 64"
      using "1.prems" div_le_dividend [of v 40] by linarith
    then show ?thesis
      using True pos d m "1.IH" 
      by (subst decode_loop.simps, subst reference_symbols.simps) (simp add: base40Chars_def)
  next
    case False
    then show ?thesis
      by (subst decode_loop.simps, subst reference_symbols.simps) simp
  qed
qed

lemma decodeCallsign_reference:
  assumes "length encoded = 6"
  shows "decodeCallsign encoded = reference_decode encoded"
    and "unat (accumulate 0 encoded) = reference_value 0 encoded"
    and "reference_value 0 encoded < 2 ^ 48"
proof -
  have "reference_value 0 encoded < 256 ^ 6"
    using reference_value_bound [of 0 encoded] assms by simp
  then show b: "reference_value 0 encoded < 2 ^ 48"
    by simp
  then have b64: "reference_value 0 encoded < 2 ^ 64"
    by simp
  then show "decodeCallsign encoded = reference_decode encoded"
    using accumulate_of_nat [of 0 encoded]
    by (simp add: decodeCallsign_def reference_decode_def decode_loop_of_nat)
  show "unat (accumulate 0 encoded) = reference_value 0 encoded"
    using accumulate_of_nat [of 0 encoded] b64 by (simp add: unat_of_nat)
qed

lemma reference_symbols_append: "reference_symbols v out = out @ reference_symbols v []"
proof (induction v arbitrary: out rule: less_induct)
  case (less v)
  let ?c = "'' ABCDEFGHIJKLMNOPQRSTUVWXYZ0123456789-/.'' ! (v mod 40)"
  show ?case
  proof (cases "v > 0")
    case True
    then have smaller: "v div 40 < v"
      by simp
    have "reference_symbols v out = reference_symbols (v div 40) (out @ [?c])"
      using True by (subst reference_symbols.simps) simp
    also have "\<dots> = (out @ [?c]) @ reference_symbols (v div 40) []"
      using smaller by (rule less)
    finally have lhs: "reference_symbols v out = out @ ?c # reference_symbols (v div 40) []"
      by simp
    have "reference_symbols v [] = reference_symbols (v div 40) [?c]"
      using True by (subst reference_symbols.simps) simp
    also have "\<dots> = [?c] @ reference_symbols (v div 40) []"
      using smaller by (rule less)
    finally show ?thesis
      using lhs by simp
  next
    case False
    then have "reference_symbols v out = out" and "reference_symbols v [] = []"
      by (subst reference_symbols.simps, simp)+
    then show ?thesis
      by simp
  qed
qed

lemma reference_symbols_step:
  assumes "v > 0"
  shows "reference_symbols v [] =
     ('' ABCDEFGHIJKLMNOPQRSTUVWXYZ0123456789-/.'' ! (v mod 40)) # reference_symbols (v div 40) []"
proof -
  have "reference_symbols v []
      = reference_symbols (v div 40) ['' ABCDEFGHIJKLMNOPQRSTUVWXYZ0123456789-/.'' ! (v mod 40)]"
    using assms by (subst reference_symbols.simps) simp
  then show ?thesis
    using reference_symbols_append
      [of "v div 40" "['' ABCDEFGHIJKLMNOPQRSTUVWXYZ0123456789-/.'' ! (v mod 40)]"]
    by simp
qed

lemma reference_symbols_zero: "reference_symbols 0 out = out"
  by (subst reference_symbols.simps) simp

lemma reference_symbols_nth:
  "k < length (reference_symbols v []) \<Longrightarrow>
   reference_symbols v [] ! k = '' ABCDEFGHIJKLMNOPQRSTUVWXYZ0123456789-/.'' ! (v div 40 ^ k mod 40)"
proof (induction k arbitrary: v)
  case 0
  then have "v > 0"
    by (cases "v = 0") (simp_all add: reference_symbols_zero)
  then show ?case
    using reference_symbols_step [of v] by simp
next
  case (Suc k)
  then have pos: "v > 0"
    by (cases "v = 0") (simp_all add: reference_symbols_zero)
  note step = reference_symbols_step [OF pos]
  have "k < length (reference_symbols (v div 40) [])"
    using Suc.prems by (simp add: step)
  then have "reference_symbols (v div 40) [] ! k
      = '' ABCDEFGHIJKLMNOPQRSTUVWXYZ0123456789-/.'' ! (v div 40 div 40 ^ k mod 40)"
    by (rule Suc.IH)
  moreover have "v div 40 div 40 ^ k = v div 40 ^ Suc k"
    by (simp add: div_mult2_eq)
  ultimately show ?case
    by (simp add: step)
qed

lemma decode_loop_length:
  "unat address < 40 ^ k \<Longrightarrow> length (decode_loop address callsign) \<le> length callsign + k"
proof (induction k arbitrary: address callsign)
  case 0
  then have "address = 0"
    by (simp add: unat_eq_zero)
  then show ?case
    by (subst decode_loop.simps) simp
next
  case (Suc k)
  show ?case
  proof (cases "address > 0")
    case True
    have "unat (address div 40) < 40 ^ k"
      using Suc.prems by (simp add: unat_div less_mult_imp_div_less mult.commute)
    then have "length (decode_loop (address div 40) (callsign @ [base40Chars ! unat (address mod 40)]))
        \<le> length (callsign @ [base40Chars ! unat (address mod 40)]) + k"
      by (rule Suc.IH)
    then show ?thesis
      using True by (subst decode_loop.simps) simp
  next
    case False
    then show ?thesis
      by (subst decode_loop.simps) simp
  qed
qed

lemma decode_loop_alphabet:
  "set (decode_loop address callsign) \<subseteq> set callsign \<union> set base40Chars"
proof (induction address callsign rule: decode_loop.induct)
  case (1 address callsign)
  show ?case
  proof (cases "address > 0")
    case True
    have "unat (address mod 40) < 40"
      by (simp add: unat_mod)
    moreover have "length base40Chars = 40"
      by (simp add: base40Chars_def)
    ultimately have "base40Chars ! unat (address mod 40) \<in> set base40Chars"
      by (metis nth_mem)
    then show ?thesis
      using True "1.IH" by (subst decode_loop.simps) auto
  next
    case False
    then show ?thesis
      by (subst decode_loop.simps) simp
  qed
qed

lemma div40_decreases: "0 < address \<Longrightarrow> unat (address div 40) < unat (address :: uint64)"
proof -
  assume "0 < address"
  then have "unat address \<noteq> 0"
    by (simp add: unat_eq_zero word_greater_zero_iff)
  then have "unat address div 40 < unat address"
    by simp
  then show ?thesis
    by (simp add: unat_div)
qed

text \<open>
  C3: on every 6-byte input \<open>decodeCallsign\<close> computes what the reference algorithm
  computes; the character at position \<open>k\<close> of the result is the alphabet character of the
  \<open>k\<close>-th base-40 digit of the accumulated value, least significant digit first; and the
  bytes 00 00 00 00 12 34 decode to T9B.
\<close>

theorem decodeCallsign_refines_reference:
  "(length encoded = 6 \<longrightarrow>
      decodeCallsign encoded = reference_decode encoded
      \<and> (\<forall>k < length (decodeCallsign encoded).
           decodeCallsign encoded ! k = base40Chars ! (unat (accumulate 0 encoded) div 40 ^ k mod 40)))
   \<and> decodeCallsign [0x00, 0x00, 0x00, 0x00, 0x12, 0x34] = ''T9B''"
proof (intro impI conjI allI)
  assume len: "length encoded = 6"
  show eq: "decodeCallsign encoded = reference_decode encoded"
    by (rule decodeCallsign_reference(1) [OF len])
  fix k
  assume "k < length (decodeCallsign encoded)"
  then show "decodeCallsign encoded ! k = base40Chars ! (unat (accumulate 0 encoded) div 40 ^ k mod 40)"
    using reference_symbols_nth [of k "reference_value 0 encoded"]
    by (simp add: eq reference_decode_def decodeCallsign_reference(2) [OF len] base40Chars_def)
next
  show "decodeCallsign [0x00, 0x00, 0x00, 0x00, 0x12, 0x34] = ''T9B''"
    by (simp add: decodeCallsign_def decode_loop.simps base40Chars_def)
qed

theorem decodeCallsign_refines_reference_witness:
  "length [0x00, 0x00, 0x00, 0x00, 0x12, 0x34 :: byte] = 6
   \<and> reference_decode [0x00, 0x00, 0x00, 0x00, 0x12, 0x34] = ''T9B''"
proof -
  let ?e = "[0x00, 0x00, 0x00, 0x00, 0x12, 0x34 :: byte]"
  have len: "length ?e = 6"
    by simp
  with decodeCallsign_refines_reference [of ?e]
  have eq: "decodeCallsign ?e = reference_decode ?e" and val: "decodeCallsign ?e = ''T9B''"
    by blast+
  have "reference_decode ?e = ''T9B''"
    by (rule trans [OF eq [symmetric] val])
  with len show ?thesis
    by (rule conjI)
qed

text \<open>
  C6: the six zero bytes decode to the empty string, not to six spaces: the accumulated
  address is 0, so the loop body never runs.
\<close>

theorem decodeCallsign_zero:
  "accumulate 0 [0, 0, 0, 0, 0, 0] = 0
   \<and> decodeCallsign [0, 0, 0, 0, 0, 0] = ''''
   \<and> decodeCallsign [0, 0, 0, 0, 0, 0] \<noteq> replicate 6 (CHR '' '')"
  by (simp add: decodeCallsign_def decode_loop.simps)

text \<open>
  C8: \<open>decodeCallsign\<close> is total on 6-byte inputs. The loop variable strictly decreases
  under division by 40 for every positive 64-bit value (the measure of the termination
  proof of \<open>decode_loop\<close>), the loop body runs at most 10 times on a 6-byte input, and
  the result is a string over the alphabet; there is no error result.
\<close>

theorem decodeCallsign_total:
  "(\<forall>address :: uint64. 0 < address \<longrightarrow> unat (address div 40) < unat address)
   \<and> (length encoded = 6 \<longrightarrow>
        length (decodeCallsign encoded) \<le> 10 \<and> set (decodeCallsign encoded) \<subseteq> set base40Chars)"
proof (intro conjI allI impI)
  fix address :: uint64
  assume "0 < address"
  then show "unat (address div 40) < unat address"
    by (rule div40_decreases)
next
  assume len: "length encoded = 6"
  have "(2 :: nat) ^ 48 < 40 ^ 10"
    by simp
  then have "unat (accumulate 0 encoded) < 40 ^ 10"
    using decodeCallsign_reference(2,3) [OF len] by linarith
  then show "length (decodeCallsign encoded) \<le> 10"
    using decode_loop_length [of "accumulate 0 encoded" 10 "[]"]
    by (simp add: decodeCallsign_def)
next
  show "set (decodeCallsign encoded) \<subseteq> set base40Chars"
    using decode_loop_alphabet [of "accumulate 0 encoded" "[]"]
    by (simp add: decodeCallsign_def)
qed

theorem decodeCallsign_total_witness:
  "length [255, 255, 255, 255, 255, 255 :: byte] = 6
   \<and> (0 :: uint64) < 4660 \<and> unat (4660 div 40 :: uint64) < unat (4660 :: uint64)
   \<and> decodeCallsign [255, 255, 255, 255, 255, 255] = ''OFD4BS.-BA''
   \<and> length (decodeCallsign [255, 255, 255, 255, 255, 255]) \<le> 10"
  using decodeCallsign_total [of "[255, 255, 255, 255, 255, 255]"]
  by (simp add: decodeCallsign_def decode_loop.simps base40Chars_def)

section \<open>Field extraction and playback\<close>

lemma go_slice_Some:
  "i \<le> j \<Longrightarrow> j \<le> length s \<Longrightarrow> go_slice s i j = Some (take (j - i) (drop i s))"
  by (simp add: go_slice_def)

lemma take2_drop:
  "Suc i < length p \<Longrightarrow> take 2 (drop i p) = [p ! i, p ! Suc i]"
proof -
  assume a: "Suc i < length p"
  then have "drop i p = p ! i # drop (Suc i) p" and "drop (Suc i) p = p ! Suc i # drop (Suc (Suc i)) p"
    by (simp_all add: Cons_nth_drop_Suc)
  then show ?thesis
    by (simp add: numeral_2_eq_2)
qed

lemma Uint16_slice:
  "Suc i < length p \<Longrightarrow>
   Uint16 (take 2 (drop i p)) = Some (ucast (p ! Suc i) OR push_bit 8 (ucast (p ! i)))"
  by (simp add: take2_drop)

lemma parse_fields_Some:
  assumes "54 \<le> length packet"
  shows "parse_fields packet = Some
    \<lparr> streamID = ucast (packet ! 5) OR push_bit 8 (ucast (packet ! 4)),
      lich = take 28 (drop 6 packet),
      frameNumber = ucast (packet ! 35) OR push_bit 8 (ucast (packet ! 34)),
      payload = take 16 (drop 36 packet),
      dst = decodeCallsign (take 6 (drop 6 packet)),
      src = decodeCallsign (take 6 (drop 12 packet)),
      typ_field = ucast (packet ! 19) OR push_bit 8 (ucast (packet ! 18)),
      meta = take 14 (drop 20 packet),
      packetStreamIndicator = (ucast (packet ! 19) OR push_bit 8 (ucast (packet ! 18))) AND 0x0001,
      dataTypeIndicator = drop_bit 1 (ucast (packet ! 19) OR push_bit 8 (ucast (packet ! 18))) AND 0x0003,
      encryptionType = drop_bit 3 (ucast (packet ! 19) OR push_bit 8 (ucast (packet ! 18))) AND 0x0003,
      encryptionSubtype = drop_bit 5 (ucast (packet ! 19) OR push_bit 8 (ucast (packet ! 18))) AND 0x0003,
      channelAccessNumber = drop_bit 7 (ucast (packet ! 19) OR push_bit 8 (ucast (packet ! 18))) AND 0x000F \<rparr>"
proof -
  have s1: "go_slice packet 4 6 = Some (take 2 (drop 4 packet))"
    and s2: "go_slice packet 6 34 = Some (take 28 (drop 6 packet))"
    and s3: "go_slice packet 34 36 = Some (take 2 (drop 34 packet))"
    and s4: "go_slice packet 36 52 = Some (take 16 (drop 36 packet))"
    using assms by (simp_all add: go_slice_def)
  have u1: "Uint16 (take 2 (drop 4 packet)) = Some (ucast (packet ! 5) OR push_bit 8 (ucast (packet ! 4)))"
    using assms Uint16_slice [of 4 packet] by simp
  have u2: "Uint16 (take 2 (drop 34 packet)) = Some (ucast (packet ! 35) OR push_bit 8 (ucast (packet ! 34)))"
    using assms Uint16_slice [of 34 packet] by simp
  let ?lich = "take 28 (drop 6 packet)"
  have ll: "length ?lich = 28"
    using assms by simp
  have l1: "go_slice ?lich 0 6 = Some (take 6 (drop 6 packet))"
    and l2: "go_slice ?lich 6 12 = Some (take 6 (drop 12 packet))"
    and l3: "go_slice ?lich 12 14 = Some (take 2 (drop 18 packet))"
    and l4: "go_slice ?lich 14 28 = Some (take 14 (drop 20 packet))"
    using assms by (simp_all add: go_slice_def drop_take add.commute)
  have u3: "Uint16 (take 2 (drop 18 packet)) = Some (ucast (packet ! 19) OR push_bit 8 (ucast (packet ! 18)))"
    using assms Uint16_slice [of 18 packet] by simp
  show ?thesis
    unfolding parse_fields_def by (simp only: s1 s2 s3 s4 u1 u2 u3 l1 l2 l3 l4 bind.bind_lunit)
qed

lemma parse_fields_props:
  assumes "54 \<le> length packet"
  obtains f where "parse_fields packet = Some f"
    and "payload f = take 16 (drop 36 packet)"
    and "length (payload f) = 16"
    and "typ_field f = ucast (packet ! 19) OR push_bit 8 (ucast (packet ! 18))"
    and "packetStreamIndicator f = typ_field f AND 0x0001"
    and "dataTypeIndicator f = drop_bit 1 (typ_field f) AND 0x0003"
    and "encryptionType f = drop_bit 3 (typ_field f) AND 0x0003"
proof -
  note eq = parse_fields_Some [OF assms]
  show thesis
    by (rule that [OF eq]) (use assms in simp_all)
qed

lemma log_Printf_keeps [simp]:
  "player (log_Printf debug l c) = player c"
  "codec2 (log_Printf debug l c) = codec2 c"
  "log_Printf False l c = c"
  by (simp_all add: log_Printf_def)

lemma PutUint16_Cons:
  "PutUint16 (b0 # b1 # bs) v = Some (ucast v # ucast (drop_bit 8 v) # bs)"
  by simp

lemma put_samples_bytes:
  "length buf = 2 * (i + length audio) \<Longrightarrow>
   put_samples i audio buf
     = Some (take (2 * i) buf @ concat (map (\<lambda>sample. [ucast sample, ucast (drop_bit 8 sample)]) audio))"
proof (induction audio arbitrary: i buf)
  case Nil
  then show ?case by simp
next
  case (Cons sample audio)
  let ?lo = "ucast sample :: byte" and ?hi = "ucast (drop_bit 8 sample) :: byte"
  have comm: "i * 2 = 2 * i"
    by simp
  have len: "length buf = 2 * i + 2 + 2 * length audio"
    using Cons.prems by simp
  have sl: "go_slice buf (2 * i) (length buf) = Some (drop (2 * i) buf)"
    using len by (simp add: go_slice_def)
  have ld: "length (drop (2 * i) buf) = Suc (Suc (2 * length audio))"
    using len by simp
  then obtain b0 t where d0: "drop (2 * i) buf = b0 # t"
    by (cases "drop (2 * i) buf") simp_all
  with ld obtain b1 rest where d1: "t = b1 # rest"
    by (cases t) simp_all
  have d: "drop (2 * i) buf = b0 # b1 # rest"
    using d0 d1 by simp
  have lr: "length rest = 2 * length audio"
    using ld d by simp
  let ?buf' = "take (2 * i) buf @ ?lo # ?hi # rest"
  have len': "length ?buf' = 2 * (Suc i + length audio)"
    using len lr by simp
  have t: "take (2 * Suc i) ?buf' = take (2 * i) buf @ [?lo, ?hi]"
    using len by simp
  have "put_samples i (sample # audio) buf = put_samples (Suc i) audio ?buf'"
    unfolding put_samples.simps comm sl d by simp
  also have "\<dots> = Some (take (2 * Suc i) ?buf'
        @ concat (map (\<lambda>sample. [ucast sample, ucast (drop_bit 8 sample)]) audio))"
    using len' by (rule Cons.IH)
  finally show ?case
    unfolding t by simp
qed

lemma playAudio_result:
  "fst (playAudio debug X c audio) = Played"
  "player (snd (playAudio debug X c audio))
     = player c @ [concat (map (\<lambda>sample. [ucast sample, ucast (drop_bit 8 sample)]) audio)]"
  "codec2 (snd (playAudio debug X c audio)) = codec2 c"
proof -
  have "put_samples 0 audio (replicate (length audio * 2) 0)
      = Some (concat (map (\<lambda>sample. [ucast sample, ucast (drop_bit 8 sample)]) audio))"
    using put_samples_bytes [of "replicate (length audio * 2) 0" 0 audio] by simp
  then show "fst (playAudio debug X c audio) = Played"
    and "player (snd (playAudio debug X c audio))
     = player c @ [concat (map (\<lambda>sample. [ucast sample, ucast (drop_bit 8 sample)]) audio)]"
    and "codec2 (snd (playAudio debug X c audio)) = codec2 c"
    by (simp_all add: playAudio_def Let_def split: option.split)
qed

lemma parse_fields_payload:
  assumes "54 \<le> length packet" and "parse_fields packet = Some f"
  shows "payload f = take 16 (drop 36 packet)" and "length (payload f) = 16"
    and "typ_field f = ucast (packet ! 19) OR push_bit 8 (ucast (packet ! 18))"
    and "packetStreamIndicator f = typ_field f AND 0x0001"
    and "dataTypeIndicator f = drop_bit 1 (typ_field f) AND 0x0003"
    and "encryptionType f = drop_bit 3 (typ_field f) AND 0x0003"
proof -
  obtain g where g: "parse_fields packet = Some g"
    and p: "payload g = take 16 (drop 36 packet)" "length (payload g) = 16"
      "typ_field g = ucast (packet ! 19) OR push_bit 8 (ucast (packet ! 18))"
      "packetStreamIndicator g = typ_field g AND 0x0001"
      "dataTypeIndicator g = drop_bit 1 (typ_field g) AND 0x0003"
      "encryptionType g = drop_bit 3 (typ_field g) AND 0x0003"
    using parse_fields_props [OF assms(1)] by metis
  from g assms(2) have "f = g"
    by simp
  with p show "payload f = take 16 (drop 36 packet)" and "length (payload f) = 16"
    and "typ_field f = ucast (packet ! 19) OR push_bit 8 (ucast (packet ! 18))"
    and "packetStreamIndicator f = typ_field f AND 0x0001"
    and "dataTypeIndicator f = drop_bit 1 (typ_field f) AND 0x0003"
    and "encryptionType f = drop_bit 3 (typ_field f) AND 0x0003"
    by simp_all
qed

lemma handleM17_short:
  assumes "length packet < 54"
  shows "fst (handleM17 debug X c packet) = RejectedLength"
    and "player (snd (handleM17 debug X c packet)) = player c"
    and "codec2 (snd (handleM17 debug X c packet)) = codec2 c"
    and "\<not> debug \<Longrightarrow> snd (handleM17 debug X c packet) = c"
  using assms by (simp_all add: handleM17_def)

lemma handleM17_mode:
  assumes "54 \<le> length packet" and "parse_fields packet = Some f"
    and "packetStreamIndicator f = 0 \<or> encryptionType f \<noteq> 0"
  shows "fst (handleM17 debug X c packet) = RejectedModeOrEncrypted"
    and "player (snd (handleM17 debug X c packet)) = player c"
    and "codec2 (snd (handleM17 debug X c packet)) = codec2 c"
    and "\<not> debug \<Longrightarrow> snd (handleM17 debug X c packet) = c"
  using assms by (simp_all add: handleM17_def Let_def)

lemma handleM17_nonvoice:
  assumes "54 \<le> length packet" and "parse_fields packet = Some f"
    and "packetStreamIndicator f \<noteq> 0" and "encryptionType f = 0"
    and "dataTypeIndicator f \<noteq> 2" and "dataTypeIndicator f \<noteq> 3"
  shows "fst (handleM17 debug X c packet) = RejectedNonVoice"
    and "player (snd (handleM17 debug X c packet)) = player c"
    and "codec2 (snd (handleM17 debug X c packet)) = codec2 c"
    and "\<not> debug \<Longrightarrow> snd (handleM17 debug X c packet) = c"
  using assms by (simp_all add: handleM17_def Let_def)

lemma handleM17_accepted:
  assumes "54 \<le> length packet" and "parse_fields packet = Some f"
    and "packetStreamIndicator f \<noteq> 0" and "encryptionType f = 0"
    and "dataTypeIndicator f = 2 \<or> dataTypeIndicator f = 3"
  obtains c1 where "player c1 = player c" and "codec2 c1 = codec2 c" and "\<not> debug \<Longrightarrow> c1 = c"
    and "handleM17 debug X c packet =
      (case Decode X (codec2 c) (take 8 (payload f)) of
         (Panic, k1) \<Rightarrow> (CodecPanicked, c1\<lparr>codec2 := k1\<rparr>)
       | (Err err, k1) \<Rightarrow>
           (FirstDecodeFailed, log_Printf debug (FailedFirstVoiceFrame err) (c1\<lparr>codec2 := k1\<rparr>))
       | (Ok audio1, k1) \<Rightarrow>
           (case Decode X k1 (drop 8 (payload f)) of
              (Panic, k2) \<Rightarrow> (CodecPanicked, c1\<lparr>codec2 := k2\<rparr>)
            | (Err err, k2) \<Rightarrow>
                (SecondDecodeFailed, log_Printf debug (FailedSecondVoiceFrame err) (c1\<lparr>codec2 := k2\<rparr>))
            | (Ok audio2, k2) \<Rightarrow> playAudio debug X (c1\<lparr>codec2 := k2\<rparr>) (audio1 @ audio2)))"
proof -
  define c1 where "c1 = log_Printf debug
      (TypeBreakdown (packetStreamIndicator f) (dataTypeIndicator f) (encryptionType f)
         (encryptionSubtype f) (channelAccessNumber f))
      (log_Printf debug
         (ReceivedM17 (streamID f) (frameNumber f) (dst f) (src f) (typ_field f) (meta f)) c)"
  have len: "length (payload f) = 16"
    by (rule parse_fields_payload(2) [OF assms(1,2)])
  have h1: "go_slice (payload f) 0 8 = Some (take 8 (payload f))"
    and h2: "go_slice (payload f) 8 16 = Some (drop 8 (payload f))"
    using len by (simp_all add: go_slice_def)
  have k: "codec2 c1 = codec2 c" and p: "player c1 = player c"
    by (simp_all add: c1_def)
  have d: "\<not> debug \<Longrightarrow> c1 = c"
    by (simp add: c1_def)
  have "handleM17 debug X c packet =
      (case Decode X (codec2 c) (take 8 (payload f)) of
         (Panic, k1) \<Rightarrow> (CodecPanicked, c1\<lparr>codec2 := k1\<rparr>)
       | (Err err, k1) \<Rightarrow>
           (FirstDecodeFailed, log_Printf debug (FailedFirstVoiceFrame err) (c1\<lparr>codec2 := k1\<rparr>))
       | (Ok audio1, k1) \<Rightarrow>
           (case Decode X k1 (drop 8 (payload f)) of
              (Panic, k2) \<Rightarrow> (CodecPanicked, c1\<lparr>codec2 := k2\<rparr>)
            | (Err err, k2) \<Rightarrow>
                (SecondDecodeFailed, log_Printf debug (FailedSecondVoiceFrame err) (c1\<lparr>codec2 := k2\<rparr>))
            | (Ok audio2, k2) \<Rightarrow> playAudio debug X (c1\<lparr>codec2 := k2\<rparr>) (audio1 @ audio2)))"
    using assms(5)
  proof
    assume "dataTypeIndicator f = 2"
    then show ?thesis
      using assms(1-4)
      by (simp add: handleM17_def Let_def c1_def len h1 h2 cong: prod.case_cong decoded.case_cong)
  next
    assume "dataTypeIndicator f = 3"
    then show ?thesis
      using assms(1-4)
      by (simp add: handleM17_def Let_def c1_def len h1 h2 cong: prod.case_cong decoded.case_cong)
  qed
  with p k d show thesis
    by (rule that)
qed

lemma masks: "(0x1F :: uint16) = mask 5" "(0x0003 :: uint16) = mask 2" "(0x0001 :: uint16) = mask 1"
  by (simp_all add: mask_eq_exp_minus_1)

lemma type_bits_of_low5:
  fixes w :: uint16
  shows "w AND 0x0001 = (w AND 0x1F) AND 0x0001"
    and "drop_bit 1 w AND 0x0003 = drop_bit 1 (w AND 0x1F) AND 0x0003"
    and "drop_bit 3 w AND 0x0003 = drop_bit 3 (w AND 0x1F) AND 0x0003"
  unfolding masks take_bit_eq_mask [symmetric]
  by (simp_all add: drop_bit_take_bit)

lemma type_bits:
  fixes t u :: uint16
  assumes "t AND 0x1F = u AND 0x1F"
  shows "t AND 0x0001 = u AND 0x0001"
    and "drop_bit 1 t AND 0x0003 = drop_bit 1 u AND 0x0003"
    and "drop_bit 3 t AND 0x0003 = drop_bit 3 u AND 0x0003"
proof -
  show "t AND 0x0001 = u AND 0x0001"
    by (subst type_bits_of_low5(1) [of t], subst type_bits_of_low5(1) [of u]) (simp only: assms)
  show "drop_bit 1 t AND 0x0003 = drop_bit 1 u AND 0x0003"
    by (subst type_bits_of_low5(2) [of t], subst type_bits_of_low5(2) [of u]) (simp only: assms)
  show "drop_bit 3 t AND 0x0003 = drop_bit 3 u AND 0x0003"
    by (subst type_bits_of_low5(3) [of t], subst type_bits_of_low5(3) [of u]) (simp only: assms)
qed


lemma handleM17_observable:
  assumes "54 \<le> length packet" and "parse_fields packet = Some f"
    and "packetStreamIndicator f \<noteq> 0" and "encryptionType f = 0"
    and "dataTypeIndicator f = 2 \<or> dataTypeIndicator f = 3"
  shows "(fst (handleM17 debug X c packet),
          player (snd (handleM17 debug X c packet)),
          codec2 (snd (handleM17 debug X c packet))) =
      (case Decode X (codec2 c) (take 8 (payload f)) of
         (Panic, k1) \<Rightarrow> (CodecPanicked, player c, k1)
       | (Err err, k1) \<Rightarrow> (FirstDecodeFailed, player c, k1)
       | (Ok audio1, k1) \<Rightarrow>
           (case Decode X k1 (drop 8 (payload f)) of
              (Panic, k2) \<Rightarrow> (CodecPanicked, player c, k2)
            | (Err err, k2) \<Rightarrow> (SecondDecodeFailed, player c, k2)
            | (Ok audio2, k2) \<Rightarrow>
                (Played,
                 player c @ [concat (map (\<lambda>sample. [ucast sample, ucast (drop_bit 8 sample)])
                                       (audio1 @ audio2))],
                 k2)))"
proof (rule handleM17_accepted [OF assms])
  fix c1 :: "'a Client"
  assume p: "player c1 = player c"
    and h: "handleM17 debug X c packet =
      (case Decode X (codec2 c) (take 8 (payload f)) of
         (Panic, k1) \<Rightarrow> (CodecPanicked, c1\<lparr>codec2 := k1\<rparr>)
       | (Err err, k1) \<Rightarrow>
           (FirstDecodeFailed, log_Printf debug (FailedFirstVoiceFrame err) (c1\<lparr>codec2 := k1\<rparr>))
       | (Ok audio1, k1) \<Rightarrow>
           (case Decode X k1 (drop 8 (payload f)) of
              (Panic, k2) \<Rightarrow> (CodecPanicked, c1\<lparr>codec2 := k2\<rparr>)
            | (Err err, k2) \<Rightarrow>
                (SecondDecodeFailed, log_Printf debug (FailedSecondVoiceFrame err) (c1\<lparr>codec2 := k2\<rparr>))
            | (Ok audio2, k2) \<Rightarrow> playAudio debug X (c1\<lparr>codec2 := k2\<rparr>) (audio1 @ audio2)))"
  show ?thesis
    unfolding h by (simp add: p playAudio_result split: prod.split decoded.split)
qed

section \<open>The codec binding: proofs\<close>

text \<open>
  C7: \<open>Codec2.Decode\<close> returns the error "invalid bit length" exactly when the length
  of the input differs from the codec's bits per frame divided by 8, which is 8 bytes when
  the codec reports 64 bits per frame (mode 3200). When the length matches, for a codec
  reporting a positive number of samples per frame and at least 8 bits per frame,
  \<open>Decode\<close> returns no error and a sample slice of exactly samples-per-frame entries,
  those the library wrote.
\<close>

theorem Decode_invalid_bit_length:
  "(fst (Decode X c bits) = Err ''invalid bit length''
      \<longleftrightarrow> int (length bits) \<noteq> quo (codec2_bits_per_frame X (handle c)) 8)
   \<and> (codec2_bits_per_frame X (handle c) = 64 \<longrightarrow>
        (fst (Decode X c bits) = Err ''invalid bit length'' \<longleftrightarrow> length bits \<noteq> 8))
   \<and> (int (length bits) = quo (codec2_bits_per_frame X (handle c)) 8
        \<and> 0 < codec2_samples_per_frame X (handle c) \<and> 8 \<le> codec2_bits_per_frame X (handle c) \<longrightarrow>
        (\<exists>audio. fst (Decode X c bits) = Ok audio
           \<and> int (length audio) = codec2_samples_per_frame X (handle c)
           \<and> audio = map (fst (codec2_decode X (handle c) bits))
                        [0..<nat (codec2_samples_per_frame X (handle c))]))"
proof (intro conjI impI)
  show iff: "fst (Decode X c bits) = Err ''invalid bit length''
      \<longleftrightarrow> int (length bits) \<noteq> quo (codec2_bits_per_frame X (handle c)) 8"
    by (simp add: Decode_def Let_def split: prod.split)
  assume "codec2_bits_per_frame X (handle c) = 64"
  then have "quo (codec2_bits_per_frame X (handle c)) 8 = 8"
    by (simp add: quo_def)
  with iff show "fst (Decode X c bits) = Err ''invalid bit length'' \<longleftrightarrow> length bits \<noteq> 8"
    by simp
next
  assume a: "int (length bits) = quo (codec2_bits_per_frame X (handle c)) 8
        \<and> 0 < codec2_samples_per_frame X (handle c) \<and> 8 \<le> codec2_bits_per_frame X (handle c)"
  then have "1 \<le> quo (codec2_bits_per_frame X (handle c)) 8"
    by (simp add: quo_def zdiv_mono1 [of 8 _ 8, simplified])
  with a have "bits \<noteq> []"
    by auto
  with a show "\<exists>audio. fst (Decode X c bits) = Ok audio
           \<and> int (length audio) = codec2_samples_per_frame X (handle c)
           \<and> audio = map (fst (codec2_decode X (handle c) bits))
                        [0..<nat (codec2_samples_per_frame X (handle c))]"
    by (simp add: Decode_def Let_def split: prod.split)
qed

theorem Decode_invalid_bit_length_witness:
  "fst (Decode stub_codec (codec2 client0) [1, 2, 3, 4, 5, 6, 7, 8]) = Ok [36, 36]
   \<and> fst (Decode stub_codec (codec2 client0) [1, 2, 3]) = Err ''invalid bit length''"
  using Decode_invalid_bit_length [of stub_codec "codec2 client0" "[1, 2, 3, 4, 5, 6, 7, 8]"]
    Decode_invalid_bit_length [of stub_codec "codec2 client0" "[1, 2, 3]"]
  by (simp add: stub_codec_def client0_def quo_def upt_rec)

section \<open>The handlers\<close>

lemma handlePacket_magic:
  assumes "take 4 packet = MagicM17"
  shows "handlePacket debug X c packet = handleM17 debug X c packet"
proof -
  have "length (take 4 packet) = 4"
    by (simp add: assms MagicM17_def)
  then have len: "4 \<le> length packet"
    by simp
  then have "go_slice packet 0 4 = Some (take 4 packet)"
    by (simp add: go_slice_def)
  then show ?thesis
    using len assms by (simp add: handlePacket_def)
qed

lemma handleM17_exits:
  assumes "54 \<le> length packet"
  shows "fst (handleM17 debug X c packet)
     \<in> {RejectedModeOrEncrypted, RejectedNonVoice, CodecPanicked, FirstDecodeFailed, SecondDecodeFailed, Played}"
proof -
  obtain f where f: "parse_fields packet = Some f"
    using parse_fields_props [OF assms] by metis
  consider (mode) "packetStreamIndicator f = 0 \<or> encryptionType f \<noteq> 0"
    | (nonvoice) "packetStreamIndicator f \<noteq> 0" "encryptionType f = 0"
        "dataTypeIndicator f \<noteq> 2" "dataTypeIndicator f \<noteq> 3"
    | (voice) "packetStreamIndicator f \<noteq> 0" "encryptionType f = 0"
        "dataTypeIndicator f = 2 \<or> dataTypeIndicator f = 3"
    by blast
  then show ?thesis
  proof cases
    case mode
    show ?thesis
      using handleM17_mode(1) [OF assms f mode, of debug X c] by simp
  next
    case nonvoice
    show ?thesis
      using handleM17_nonvoice(1) [OF assms f nonvoice, of debug X c] by simp
  next
    case voice
    have "fst (fst (handleM17 debug X c packet),
          player (snd (handleM17 debug X c packet)),
          codec2 (snd (handleM17 debug X c packet)))
       \<in> {CodecPanicked, FirstDecodeFailed, SecondDecodeFailed, Played}"
      unfolding handleM17_observable [OF assms f voice]
      by (simp split: prod.split decoded.split)
    then show ?thesis
      by simp
  qed
qed

text \<open>
  C9: the payload is the fixed slice of bytes 36 to 52 of the datagram, so for every datagram
  of at least 54 bytes it has exactly 16 bytes, and \<open>handleM17\<close> never leaves through the
  payload-length rejection.
\<close>

theorem handleM17_payload_length_unreachable:
  "fst (handleM17 debug X c packet) \<noteq> RejectedPayloadLength
   \<and> (54 \<le> length packet \<longrightarrow>
        (\<exists>f. parse_fields packet = Some f
           \<and> payload f = take 16 (drop 36 packet) \<and> length (payload f) = 16))"
proof (intro conjI impI)
  show "fst (handleM17 debug X c packet) \<noteq> RejectedPayloadLength"
  proof (cases "length packet < 54")
    case True
    then show ?thesis
      by (simp add: handleM17_short(1))
  next
    case False
    then have "54 \<le> length packet"
      by simp
    then show ?thesis
      using handleM17_exits [of packet debug X c] by auto
  qed
next
  assume "54 \<le> length packet"
  then show "\<exists>f. parse_fields packet = Some f
           \<and> payload f = take 16 (drop 36 packet) \<and> length (payload f) = 16"
    using parse_fields_props [of packet] by metis
qed

theorem handleM17_payload_length_unreachable_witness:
  "54 \<le> length (frame_of_type 0 5)
   \<and> fst (handleM17 True stub_codec client0 (frame_of_type 0 5)) \<noteq> RejectedPayloadLength
   \<and> (\<exists>f. parse_fields (frame_of_type 0 5) = Some f \<and> length (payload f) = 16)"
proof -
  have l: "54 \<le> length (frame_of_type 0 5)"
    by code_simp
  show ?thesis
    using handleM17_payload_length_unreachable [of True stub_codec client0 "frame_of_type 0 5"] l by blast
qed

text \<open>
  C2: a datagram that starts with the magic is rejected for its length exactly when it is
  shorter than 54 bytes, and then neither the player nor the codec is touched: 53 bytes are
  rejected, 54 bytes are not, and from 54 bytes on the fields are extracted, with the
  16-byte payload taken from offsets 36 to 52.
\<close>

theorem handlePacket_length_boundary:
  assumes "take 4 packet = MagicM17"
  shows "(fst (handlePacket debug X c packet) = RejectedLength \<longleftrightarrow> length packet < 54)
    \<and> (length packet < 54 \<longrightarrow>
          player (snd (handlePacket debug X c packet)) = player c
          \<and> codec2 (snd (handlePacket debug X c packet)) = codec2 c)
    \<and> (length packet = 53 \<longrightarrow> fst (handlePacket debug X c packet) = RejectedLength)
    \<and> (length packet = 54 \<longrightarrow> fst (handlePacket debug X c packet) \<noteq> RejectedLength)
    \<and> (54 \<le> length packet \<longrightarrow>
          (\<exists>f. parse_fields packet = Some f
             \<and> payload f = take 16 (drop 36 packet) \<and> length (payload f) = 16))"
proof -
  note hp = handlePacket_magic [OF assms]
  have short: "length packet < 54 \<Longrightarrow> fst (handlePacket debug X c packet) = RejectedLength"
    by (simp add: hp handleM17_short(1))
  have long: "54 \<le> length packet \<Longrightarrow> fst (handlePacket debug X c packet) \<noteq> RejectedLength"
    using handleM17_exits [of packet debug X c] by (auto simp: hp)
  have iff: "fst (handlePacket debug X c packet) = RejectedLength \<longleftrightarrow> length packet < 54"
    using short long by (cases "length packet < 54") simp_all
  have quiet: "length packet < 54 \<longrightarrow>
          player (snd (handlePacket debug X c packet)) = player c
          \<and> codec2 (snd (handlePacket debug X c packet)) = codec2 c"
    by (simp add: hp handleM17_short)
  have ext: "54 \<le> length packet \<longrightarrow>
          (\<exists>f. parse_fields packet = Some f
             \<and> payload f = take 16 (drop 36 packet) \<and> length (payload f) = 16)"
    using parse_fields_props [of packet] by metis
  show ?thesis
    using iff quiet ext short long by simp
qed

theorem handlePacket_length_boundary_witness:
  "take 4 (frame_of_type 0 5) = MagicM17 \<and> length (frame_of_type 0 5) = 54
   \<and> fst (handlePacket False stub_codec client0 (frame_of_type 0 5)) \<noteq> RejectedLength
   \<and> take 4 (butlast (frame_of_type 0 5)) = MagicM17 \<and> length (butlast (frame_of_type 0 5)) = 53
   \<and> fst (handlePacket False stub_codec client0 (butlast (frame_of_type 0 5))) = RejectedLength"
proof -
  have m: "take 4 (frame_of_type 0 5) = MagicM17" and l: "length (frame_of_type 0 5) = 54"
    and m': "take 4 (butlast (frame_of_type 0 5)) = MagicM17"
    and l': "length (butlast (frame_of_type 0 5)) = 53"
    by code_simp+
  show ?thesis
    using handlePacket_length_boundary [OF m, of False stub_codec client0] handlePacket_length_boundary [OF m', of False stub_codec client0] m l m' l'
    by simp
qed



text \<open>
  C4: for an accepted frame whose two codec calls succeed, \<open>playAudio\<close> is called on
  the samples of bytes 0 to 8 of the payload followed by the samples of bytes 8 to 16, and
  the player receives exactly one buffer: those samples, in that order, each as two bytes
  in little-endian order.
\<close>

theorem handleM17_audio_concatenation:
  assumes "54 \<le> length packet" and "parse_fields packet = Some f"
    and "packetStreamIndicator f = 1" and "encryptionType f = 0"
    and "dataTypeIndicator f = 2 \<or> dataTypeIndicator f = 3"
    and "Decode X (codec2 c) (take 8 (payload f)) = (Ok audio1, k1)"
    and "Decode X k1 (drop 8 (payload f)) = (Ok audio2, k2)"
  shows "fst (handleM17 debug X c packet) = Played
    \<and> player (snd (handleM17 debug X c packet))
        = player c @ [concat (map (\<lambda>sample. [ucast sample, ucast (drop_bit 8 sample)]) (audio1 @ audio2))]
    \<and> codec2 (snd (handleM17 debug X c packet)) = k2
    \<and> (\<exists>c2. handleM17 debug X c packet = playAudio debug X c2 (audio1 @ audio2) \<and> player c2 = player c)
    \<and> take 8 (payload f) = take 8 (drop 36 packet)
    \<and> drop 8 (payload f) = take 8 (drop 44 packet)"
proof -
  have v: "packetStreamIndicator f \<noteq> 0"
    using assms(3) by simp
  let ?r = "handleM17 debug X c packet"
  have "(fst ?r, player (snd ?r), codec2 (snd ?r)) =
      (Played,
       player c @ [concat (map (\<lambda>sample. [ucast sample, ucast (drop_bit 8 sample)]) (audio1 @ audio2))],
       k2)"
    unfolding handleM17_observable [OF assms(1,2) v assms(4,5)]
    by (simp add: assms(6,7))
  then have obs: "fst ?r = Played"
    "player (snd ?r)
        = player c @ [concat (map (\<lambda>sample. [ucast sample, ucast (drop_bit 8 sample)]) (audio1 @ audio2))]"
    "codec2 (snd ?r) = k2"
    by simp_all
  have call: "\<exists>c2. ?r = playAudio debug X c2 (audio1 @ audio2) \<and> player c2 = player c"
  proof (rule handleM17_accepted [OF assms(1,2) v assms(4,5)])
    fix c1 :: "'a Client"
    assume p: "player c1 = player c"
      and h: "handleM17 debug X c packet =
        (case Decode X (codec2 c) (take 8 (payload f)) of
           (Panic, k1) \<Rightarrow> (CodecPanicked, c1\<lparr>codec2 := k1\<rparr>)
         | (Err err, k1) \<Rightarrow>
             (FirstDecodeFailed, log_Printf debug (FailedFirstVoiceFrame err) (c1\<lparr>codec2 := k1\<rparr>))
         | (Ok audio1, k1) \<Rightarrow>
             (case Decode X k1 (drop 8 (payload f)) of
                (Panic, k2) \<Rightarrow> (CodecPanicked, c1\<lparr>codec2 := k2\<rparr>)
              | (Err err, k2) \<Rightarrow>
                  (SecondDecodeFailed, log_Printf debug (FailedSecondVoiceFrame err) (c1\<lparr>codec2 := k2\<rparr>))
              | (Ok audio2, k2) \<Rightarrow> playAudio debug X (c1\<lparr>codec2 := k2\<rparr>) (audio1 @ audio2)))"
    have "?r = playAudio debug X (c1\<lparr>codec2 := k2\<rparr>) (audio1 @ audio2)"
      unfolding h by (simp add: assms(6,7))
    moreover have "player (c1\<lparr>codec2 := k2\<rparr>) = player c"
      using p by simp
    ultimately show ?thesis
      by blast
  qed
  have pl: "payload f = take 16 (drop 36 packet)"
    by (rule parse_fields_payload(1) [OF assms(1,2)])
  have halves: "take 8 (payload f) = take 8 (drop 36 packet)"
    "drop 8 (payload f) = take 8 (drop 44 packet)"
    unfolding pl by (simp_all add: drop_take)
  show ?thesis
    using obs call halves by simp
qed

theorem handleM17_audio_concatenation_witness:
  "54 \<le> length (frame_of_type 0 5)
   \<and> fst (handleM17 False stub_codec client0 (frame_of_type 0 5)) = Played
   \<and> player (snd (handleM17 False stub_codec client0 (frame_of_type 0 5))) = [[36, 0, 36, 0, 8, 0, 8, 0]]"
proof -
  let ?F = "frame_of_type 0 5"
  let ?f = "the (parse_fields ?F)"
  have l: "54 \<le> length ?F"
    by code_simp
  have pf: "parse_fields ?F = Some ?f"
    by code_simp
  have a: "packetStreamIndicator ?f = 1" and b: "encryptionType ?f = 0"
    and c: "dataTypeIndicator ?f = 2 \<or> dataTypeIndicator ?f = 3"
    by code_simp+
  have d1: "Decode stub_codec (codec2 client0) (take 8 (payload ?f)) = (Ok [36, 36], \<lparr>handle = 1, mode = 0\<rparr>)"
    by code_simp
  have d2: "Decode stub_codec \<lparr>handle = 1, mode = 0\<rparr> (drop 8 (payload ?f)) = (Ok [8, 8], \<lparr>handle = 2, mode = 0\<rparr>)"
    by code_simp
  have p0: "player client0 = []"
    by (simp add: client0_def)
  show ?thesis
    using handleM17_audio_concatenation [OF l pf a b c d1 d2, of False] l by (simp add: p0)
qed

lemma listen_continues:
  assumes "fst (handlePacket debug X (log_Printf debug (ReceivedPacketFrom s) c) p) \<notin> {Panicked, CodecPanicked}"
  shows "listen debug X c (\<lparr>cancelled = False, network_src = s, udp_payload = Some p\<rparr> # rest)
     = listen debug X (snd (handlePacket debug X (log_Printf debug (ReceivedPacketFrom s) c) p)) rest"
proof (cases "handlePacket debug X (log_Printf debug (ReceivedPacketFrom s) c) p")
  case (Pair e c')
  with assms have "e \<noteq> Panicked" and "e \<noteq> CodecPanicked"
    by simp_all
  then show ?thesis
    using Pair by (cases e) simp_all
qed

text \<open>
  C5: for an accepted frame, when the codec returns an error for the first half of the
  payload, or returns samples for the first half and an error for the second, nothing is
  sent to the player (the samples of the first half are discarded), and \<open>listen\<close>
  goes on with the next captured packet.
\<close>

theorem handleM17_codec_error_drops_frame:
  assumes "54 \<le> length packet" and "parse_fields packet = Some f"
    and "packetStreamIndicator f = 1" and "encryptionType f = 0"
    and "dataTypeIndicator f = 2 \<or> dataTypeIndicator f = 3"
    and "Decode X (codec2 c) (take 8 (payload f)) = (Err err, k)
         \<or> (\<exists>audio1 k1. Decode X (codec2 c) (take 8 (payload f)) = (Ok audio1, k1)
               \<and> Decode X k1 (drop 8 (payload f)) = (Err err, k))"
  shows "fst (handleM17 debug X c packet) \<in> {FirstDecodeFailed, SecondDecodeFailed}
    \<and> (fst (handleM17 debug X c packet) = FirstDecodeFailed
          \<longleftrightarrow> Decode X (codec2 c) (take 8 (payload f)) = (Err err, k))
    \<and> player (snd (handleM17 debug X c packet)) = player c
    \<and> (take 4 packet = MagicM17 \<longrightarrow>
          listen debug X c (\<lparr>cancelled = False, network_src = s, udp_payload = Some packet\<rparr> # rest)
            = listen debug X (snd (handlePacket debug X (log_Printf debug (ReceivedPacketFrom s) c) packet)) rest
          \<and> player (snd (handlePacket debug X (log_Printf debug (ReceivedPacketFrom s) c) packet)) = player c)"
proof -
  have v: "packetStreamIndicator f \<noteq> 0"
    using assms(3) by simp
  note obs = handleM17_observable [OF assms(1,2) v assms(4,5)]
  have res: "fst (handleM17 debug X c' packet) \<in> {FirstDecodeFailed, SecondDecodeFailed}
      \<and> (fst (handleM17 debug X c' packet) = FirstDecodeFailed
          \<longleftrightarrow> Decode X (codec2 c) (take 8 (payload f)) = (Err err, k))
      \<and> player (snd (handleM17 debug X c' packet)) = player c'"
    if same: "codec2 c' = codec2 c" for c' :: "'a Client"
  proof -
    let ?r = "handleM17 debug X c' packet"
    from assms(6) have "(fst ?r, player (snd ?r), codec2 (snd ?r)) = (FirstDecodeFailed, player c', k)
        \<and> Decode X (codec2 c) (take 8 (payload f)) = (Err err, k)
      \<or> (fst ?r, player (snd ?r), codec2 (snd ?r)) = (SecondDecodeFailed, player c', k)
        \<and> Decode X (codec2 c) (take 8 (payload f)) \<noteq> (Err err, k)"
    proof
      assume "Decode X (codec2 c) (take 8 (payload f)) = (Err err, k)"
      then show ?thesis
        unfolding obs [of debug X c'] same by simp
    next
      assume "\<exists>audio1 k1. Decode X (codec2 c) (take 8 (payload f)) = (Ok audio1, k1)
               \<and> Decode X k1 (drop 8 (payload f)) = (Err err, k)"
      then obtain audio1 k1 where "Decode X (codec2 c) (take 8 (payload f)) = (Ok audio1, k1)"
        and "Decode X k1 (drop 8 (payload f)) = (Err err, k)"
        by blast
      then show ?thesis
        unfolding obs [of debug X c'] same by simp
    qed
    then show ?thesis
      by auto
  qed
  have here: "fst (handleM17 debug X c packet) \<in> {FirstDecodeFailed, SecondDecodeFailed}
      \<and> (fst (handleM17 debug X c packet) = FirstDecodeFailed
          \<longleftrightarrow> Decode X (codec2 c) (take 8 (payload f)) = (Err err, k))
      \<and> player (snd (handleM17 debug X c packet)) = player c"
    by (rule res) simp
  have loop: "listen debug X c (\<lparr>cancelled = False, network_src = s, udp_payload = Some packet\<rparr> # rest)
            = listen debug X (snd (handlePacket debug X (log_Printf debug (ReceivedPacketFrom s) c) packet)) rest
          \<and> player (snd (handlePacket debug X (log_Printf debug (ReceivedPacketFrom s) c) packet)) = player c"
    if magic: "take 4 packet = MagicM17"
  proof -
    let ?c = "log_Printf debug (ReceivedPacketFrom s) c"
    have r: "fst (handleM17 debug X ?c packet) \<in> {FirstDecodeFailed, SecondDecodeFailed}
      \<and> (fst (handleM17 debug X ?c packet) = FirstDecodeFailed
          \<longleftrightarrow> Decode X (codec2 c) (take 8 (payload f)) = (Err err, k))
      \<and> player (snd (handleM17 debug X ?c packet)) = player ?c"
      by (rule res) simp
    then have "fst (handlePacket debug X ?c packet) \<notin> {Panicked, CodecPanicked}"
      unfolding handlePacket_magic [OF magic] by auto
    then have "listen debug X c (\<lparr>cancelled = False, network_src = s, udp_payload = Some packet\<rparr> # rest)
            = listen debug X (snd (handlePacket debug X ?c packet)) rest"
      by (rule listen_continues)
    moreover have "player (snd (handlePacket debug X ?c packet)) = player c"
      unfolding handlePacket_magic [OF magic] using r by simp
    ultimately show ?thesis
      by simp
  qed
  show ?thesis
    using here loop by blast
qed

theorem handleM17_codec_error_drops_frame_witness:
  "54 \<le> length (frame_of_type 0 7)
   \<and> fst (handleM17 False fading_codec client0 (frame_of_type 0 7)) = SecondDecodeFailed
   \<and> player (snd (handleM17 False fading_codec client0 (frame_of_type 0 7))) = []"
proof -
  let ?F = "frame_of_type 0 7"
  let ?f = "the (parse_fields ?F)"
  have l: "54 \<le> length ?F"
    by code_simp
  have pf: "parse_fields ?F = Some ?f"
    by code_simp
  have a: "packetStreamIndicator ?f = 1" and b: "encryptionType ?f = 0"
    and c: "dataTypeIndicator ?f = 2 \<or> dataTypeIndicator ?f = 3"
    by code_simp+
  have d1: "Decode fading_codec (codec2 client0) (take 8 (payload ?f)) = (Ok [36, 36], \<lparr>handle = 1, mode = 0\<rparr>)"
    by code_simp
  have d2: "Decode fading_codec \<lparr>handle = 1, mode = 0\<rparr> (drop 8 (payload ?f))
      = (Err ''invalid bit length'', \<lparr>handle = 1, mode = 0\<rparr>)"
    by code_simp
  have d: "Decode fading_codec (codec2 client0) (take 8 (payload ?f))
        = (Err ''invalid bit length'', \<lparr>handle = 1, mode = 0\<rparr>)
      \<or> (\<exists>audio1 k1. Decode fading_codec (codec2 client0) (take 8 (payload ?f)) = (Ok audio1, k1)
            \<and> Decode fading_codec k1 (drop 8 (payload ?f))
                = (Err ''invalid bit length'', \<lparr>handle = 1, mode = 0\<rparr>))"
    using d1 d2 by blast
  have p0: "player client0 = []"
    by (simp add: client0_def)
  show ?thesis
    using handleM17_codec_error_drops_frame [OF l pf a b c d, of False] l d1 by (auto simp: p0)
qed

text \<open>
  C10: two datagrams with the magic and at least 54 bytes that agree on bits 0 to 4 of the
  type word and on the payload leave the handler through the same exit and leave the same
  buffers at the player and the same codec state, whatever their other bytes are.
\<close>

theorem handlePacket_independent_of_opaque_fields:
  assumes "take 4 p = MagicM17" and "take 4 q = MagicM17"
    and "54 \<le> length p" and "54 \<le> length q"
    and "parse_fields p = Some f" and "parse_fields q = Some g"
    and "typ_field f AND 0x1F = typ_field g AND 0x1F"
    and "payload f = payload g"
  shows "fst (handlePacket debug X c p) = fst (handlePacket debug X c q)
    \<and> player (snd (handlePacket debug X c p)) = player (snd (handlePacket debug X c q))
    \<and> codec2 (snd (handlePacket debug X c p)) = codec2 (snd (handlePacket debug X c q))"
proof -
  note fp = parse_fields_payload [OF assms(3,5)]
  note gp = parse_fields_payload [OF assms(4,6)]
  note tb = type_bits [OF assms(7)]
  have psi: "packetStreamIndicator f = packetStreamIndicator g"
    unfolding fp(4) gp(4) by (rule tb(1))
  have dti: "dataTypeIndicator f = dataTypeIndicator g"
    unfolding fp(5) gp(5) by (rule tb(2))
  have enc: "encryptionType f = encryptionType g"
    unfolding fp(6) gp(6) by (rule tb(3))
  let ?rp = "handleM17 debug X c p" and ?rq = "handleM17 debug X c q"
  have "(fst ?rp, player (snd ?rp), codec2 (snd ?rp)) = (fst ?rq, player (snd ?rq), codec2 (snd ?rq))"
  proof (cases "packetStreamIndicator f = 0 \<or> encryptionType f \<noteq> 0")
    case True
    then have True': "packetStreamIndicator g = 0 \<or> encryptionType g \<noteq> 0"
      using psi enc by simp
    show ?thesis
      using handleM17_mode(1-3) [OF assms(3,5) True, of debug X c]
        handleM17_mode(1-3) [OF assms(4,6) True', of debug X c]
      by simp
  next
    case False
    then have a: "packetStreamIndicator f \<noteq> 0" "encryptionType f = 0"
      by simp_all
    then have b: "packetStreamIndicator g \<noteq> 0" "encryptionType g = 0"
      using psi enc by simp_all
    show ?thesis
    proof (cases "dataTypeIndicator f = 2 \<or> dataTypeIndicator f = 3")
      case True
      then have True': "dataTypeIndicator g = 2 \<or> dataTypeIndicator g = 3"
        using dti by simp
      show ?thesis
        unfolding handleM17_observable [OF assms(3,5) a True]
          handleM17_observable [OF assms(4,6) b True'] assms(8)
        by (rule refl)
    next
      case False
      then have n: "dataTypeIndicator f \<noteq> 2" "dataTypeIndicator f \<noteq> 3"
        by simp_all
      then have n': "dataTypeIndicator g \<noteq> 2" "dataTypeIndicator g \<noteq> 3"
        using dti by simp_all
      show ?thesis
        using handleM17_nonvoice(1-3) [OF assms(3,5) a n, of debug X c]
          handleM17_nonvoice(1-3) [OF assms(4,6) b n', of debug X c]
        by simp
    qed
  qed
  then show ?thesis
    unfolding handlePacket_magic [OF assms(1)] handlePacket_magic [OF assms(2)] by simp
qed

theorem handlePacket_independent_of_opaque_fields_witness:
  "take 4 alt_frame = MagicM17 \<and> 54 \<le> length alt_frame \<and> alt_frame \<noteq> frame_of_type 0 5
   \<and> fst (handlePacket True stub_codec client0 (frame_of_type 0 5))
       = fst (handlePacket True stub_codec client0 alt_frame)
   \<and> player (snd (handlePacket True stub_codec client0 (frame_of_type 0 5)))
       = player (snd (handlePacket True stub_codec client0 alt_frame))"
proof -
  let ?p = "frame_of_type 0 5" and ?q = alt_frame
  let ?f = "the (parse_fields ?p)" and ?g = "the (parse_fields ?q)"
  have m: "take 4 ?p = MagicM17" and m': "take 4 ?q = MagicM17"
    and l: "54 \<le> length ?p" and l': "54 \<le> length ?q"
    and ne: "?q \<noteq> ?p"
    by code_simp+
  have pf: "parse_fields ?p = Some ?f" and pg: "parse_fields ?q = Some ?g"
    by code_simp+
  have t: "typ_field ?f AND 0x1F = typ_field ?g AND 0x1F" and pl: "payload ?f = payload ?g"
    by code_simp+
  show ?thesis
    using handlePacket_independent_of_opaque_fields [OF m m' l l' pf pg t pl, of True stub_codec client0] m' l' ne by simp
qed

end
